theory Spec2Isabelle
  imports Main "HOL-Library.Multiset" "HOL-Library.Product_Lexorder"
begin

section \<open>Data model of the scheduling assistant\<close>

text \<open>
  A \<^verbatim>\<open>datetime\<close> is a naive timestamp with microsecond resolution between
  0001-01-01 00:00:00 and 9999-12-31 23:59:59.999999; it is represented by the number of
  microseconds since the earliest one. A \<^verbatim>\<open>timedelta\<close> is a number of
  microseconds of magnitude below one thousand million days. Arithmetic that leaves
  either range raises \<^verbatim>\<open>OverflowError\<close>.
\<close>

datatype error = TypeError | OverflowError

type_synonym datetime = int
type_synonym timedelta = int

definition DATETIME_MAX :: int where
  "DATETIME_MAX = 3652059 * 86400000000 - 1"

definition TIMEDELTA_MIN :: int where
  "TIMEDELTA_MIN = - 999999999 * 86400000000"

definition TIMEDELTA_MAX :: int where
  "TIMEDELTA_MAX = 1000000000 * 86400000000 - 1"

definition valid_datetime :: "datetime \<Rightarrow> bool" where
  "valid_datetime d \<longleftrightarrow> 0 \<le> d \<and> d \<le> DATETIME_MAX"

definition new_timedelta :: "int \<Rightarrow> error + timedelta" where
  "new_timedelta us =
     (if TIMEDELTA_MIN \<le> us \<and> us \<le> TIMEDELTA_MAX then Inr us else Inl OverflowError)"

definition timedelta_minutes :: "int \<Rightarrow> error + timedelta" where
  "timedelta_minutes m = new_timedelta (m * 60000000)"

definition timedelta_hours :: "int \<Rightarrow> error + timedelta" where
  "timedelta_hours h = new_timedelta (h * 3600000000)"

definition datetime_add :: "datetime \<Rightarrow> timedelta \<Rightarrow> error + datetime" where
  "datetime_add d td =
     (if valid_datetime (d + td) then Inr (d + td) else Inl OverflowError)"

text \<open>
  A task object. The field \<open>oid\<close> is the identity of the Python object: the class
  defines neither \<^verbatim>\<open>__eq__\<close> nor \<^verbatim>\<open>__lt__\<close>, so two tasks are equal
  exactly when they are the same object, and equality of records stands for that.
\<close>

record Task =
  oid :: nat
  name :: string
  task_type :: string
  deadline :: datetime
  priority :: int
  duration :: int

type_synonym entry = "int \<times> datetime \<times> Task"

record TaskManager =
  tasks :: "entry list"
  schedule :: "Task list"
  completed_tasks :: "Task list"

definition init :: TaskManager where
  "init = \<lparr>tasks = [], schedule = [], completed_tasks = []\<rparr>"

fun entry_task :: "entry \<Rightarrow> Task" where
  "entry_task (_, _, task) = task"

fun entry_deadline :: "entry \<Rightarrow> datetime" where
  "entry_deadline (_, d, _) = d"

section \<open>Merge sort\<close>

function merge_loop ::
  "('a \<Rightarrow> 'k::linorder) \<Rightarrow> 'a list \<Rightarrow> 'a list \<Rightarrow> nat \<Rightarrow> nat \<Rightarrow> 'a list \<Rightarrow> 'a list" where
  "merge_loop key left right i j result =
     (if i < length left \<and> j < length right then
        (if key (left ! i) \<le> key (right ! j)
         then merge_loop key left right (i + 1) j (result @ [left ! i])
         else merge_loop key left right i (j + 1) (result @ [right ! j]))
      else result @ drop i left @ drop j right)"
  by pat_completeness auto
termination
  by (relation "measure (\<lambda>(key, left, right, i, j, result).
        (length left - i) + (length right - j))") auto

declare merge_loop.simps [simp del]

definition merge :: "('a \<Rightarrow> 'k::linorder) \<Rightarrow> 'a list \<Rightarrow> 'a list \<Rightarrow> 'a list" where
  "merge key left right = merge_loop key left right 0 0 []"

function merge_sort :: "('a \<Rightarrow> 'k::linorder) \<Rightarrow> 'a list \<Rightarrow> 'a list" where
  "merge_sort key xs =
     (if length xs \<le> 1 then xs
      else let mid = length xs div 2;
               left = merge_sort key (take mid xs);
               right = merge_sort key (drop mid xs)
           in merge key left right)"
  by pat_completeness auto
termination
  by (relation "measure (\<lambda>(key, xs). length xs)") auto

declare merge_sort.simps [simp del]

section \<open>Built-in comparison and sorting\<close>

text \<open>
  Python's \<^verbatim>\<open><\<close> on the triples \<^verbatim>\<open>(priority, deadline, task)\<close>: the first
  position where the triples differ decides. Two different task objects cannot be
  compared, so the comparison raises \<^verbatim>\<open>TypeError\<close> when priority and deadline agree
  and the tasks are not the same object.
\<close>

fun tuple_lt :: "entry \<Rightarrow> entry \<Rightarrow> error + bool" where
  "tuple_lt (p1, d1, t1) (p2, d2, t2) =
     (if p1 \<noteq> p2 then Inr (p1 < p2)
      else if d1 \<noteq> d2 then Inr (d1 < d2)
      else if t1 = t2 then Inr False
      else Inl TypeError)"

text \<open>
  The built-in \<^verbatim>\<open>sorted\<close> is a stable comparison sort that uses \<^verbatim>\<open><\<close> only
  and returns a new list. It is modelled as the insertion sort that places each element,
  from left to right, behind the elements of the sorted prefix that are not greater;
  the first comparison that raises ends the sort. The outcome is that of any comparison
  sort: the sort raises exactly when two entries of the list cannot be compared, and
  returns the stable sort by priority and deadline otherwise (lemma \<open>sorted_py_eq\<close>).
\<close>

fun insort_py :: "entry \<Rightarrow> entry list \<Rightarrow> error + entry list" where
  "insort_py x [] = Inr [x]"
| "insort_py x (y # ys) =
     (case tuple_lt x y of
        Inl e \<Rightarrow> Inl e
      | Inr True \<Rightarrow> Inr (x # y # ys)
      | Inr False \<Rightarrow>
          (case insort_py x ys of Inl e \<Rightarrow> Inl e | Inr zs \<Rightarrow> Inr (y # zs)))"

fun sorted_loop :: "entry list \<Rightarrow> entry list \<Rightarrow> error + entry list" where
  "sorted_loop acc [] = Inr acc"
| "sorted_loop acc (x # xs) =
     (case insort_py x acc of Inl e \<Rightarrow> Inl e | Inr acc' \<Rightarrow> sorted_loop acc' xs)"

definition sorted_py :: "entry list \<Rightarrow> error + entry list" where
  "sorted_py xs = sorted_loop [] xs"

text \<open>
  \<^verbatim>\<open>list.sort(key=...)\<close> on keys that are always comparable: a stable sort, whose
  result is determined by the input, here the library's stable insertion sort.
\<close>

definition list_sort :: "('a \<Rightarrow> 'k::linorder) \<Rightarrow> 'a list \<Rightarrow> 'a list" where
  "list_sort key xs = sort_key key xs"

section \<open>The priority queue\<close>

text \<open>
  \<^verbatim>\<open>heapq.heappush\<close> appends the item and sifts it towards the root while it is
  smaller than its parent.
\<close>

function siftdown :: "entry list \<Rightarrow> entry \<Rightarrow> nat \<Rightarrow> error + entry list" where
  "siftdown heap newitem pos =
     (if pos > 0 then
        (let parentpos = (pos - 1) div 2;
             parent = heap ! parentpos
         in case tuple_lt newitem parent of
              Inl e \<Rightarrow> Inl e
            | Inr True \<Rightarrow> siftdown (heap[pos := parent]) newitem parentpos
            | Inr False \<Rightarrow> Inr (heap[pos := newitem]))
      else Inr (heap[pos := newitem]))"
  by pat_completeness auto
termination
  by (relation "measure (\<lambda>(heap, newitem, pos). pos)") auto

declare siftdown.simps [simp del]

definition heappush :: "entry list \<Rightarrow> entry \<Rightarrow> error + entry list" where
  "heappush heap item = siftdown (heap @ [item]) item (length heap)"

section \<open>Operations of the task manager\<close>

definition add_task :: "Task \<Rightarrow> TaskManager \<Rightarrow> error + TaskManager" where
  "add_task task st =
     (case heappush (tasks st) (priority task, deadline task, task) of
        Inl e \<Rightarrow> Inl e
      | Inr heap \<Rightarrow> Inr (st\<lparr>tasks := heap\<rparr>))"

definition get_upcoming_tasks :: "TaskManager \<Rightarrow> Task list \<times> TaskManager" where
  "get_upcoming_tasks st =
     (let sorted_tasks = merge_sort entry_deadline (tasks st)
      in (map entry_task sorted_tasks, st))"

text \<open>The expression \<^verbatim>\<open>current_time + timedelta(minutes=m)\<close>.\<close>

definition plus_minutes :: "datetime \<Rightarrow> int \<Rightarrow> error + datetime" where
  "plus_minutes current_time m =
     (case timedelta_minutes m of
        Inl e \<Rightarrow> Inl e
      | Inr td \<Rightarrow> datetime_add current_time td)"

fun schedule_loop :: "entry list \<Rightarrow> datetime \<Rightarrow> Task list \<Rightarrow> error + Task list" where
  "schedule_loop [] current_time scheduled_tasks = Inr scheduled_tasks"
| "schedule_loop ((p, d, task) # es) current_time scheduled_tasks =
     (case plus_minutes current_time (duration task) of
        Inl e \<Rightarrow> Inl e
      | Inr finish \<Rightarrow>
          if finish \<le> d then
            (case plus_minutes current_time (duration task) of
               Inl e \<Rightarrow> Inl e
             | Inr current_time' \<Rightarrow>
                 schedule_loop es current_time' (scheduled_tasks @ [task]))
          else schedule_loop es current_time scheduled_tasks)"

text \<open>
  The current time \<^verbatim>\<open>datetime.now()\<close> is the parameter \<open>now\<close>. The manager is
  returned in both outcomes: an exception leaves it as it was, since the only assignment
  is the last statement before the return.
\<close>

definition schedule_tasks ::
  "datetime \<Rightarrow> TaskManager \<Rightarrow> (error + Task list) \<times> TaskManager" where
  "schedule_tasks now st =
     (case sorted_py (tasks st) of
        Inl e \<Rightarrow> (Inl e, st)
      | Inr ordered \<Rightarrow>
          (case schedule_loop ordered now [] of
             Inl e \<Rightarrow> (Inl e, st)
           | Inr scheduled_tasks \<Rightarrow>
               (Inr scheduled_tasks, st\<lparr>schedule := scheduled_tasks\<rparr>)))"

fun remind_loop ::
  "datetime \<Rightarrow> entry list \<Rightarrow> Task list \<Rightarrow> Task list \<Rightarrow> Task list \<times> Task list" where
  "remind_loop current_time [] overdue_tasks pending_tasks = (overdue_tasks, pending_tasks)"
| "remind_loop current_time ((p, d, task) # es) overdue_tasks pending_tasks =
     (if d < current_time
      then remind_loop current_time es (overdue_tasks @ [task]) pending_tasks
      else remind_loop current_time es overdue_tasks (pending_tasks @ [task]))"

text \<open>
  \<^verbatim>\<open>remind_tasks\<close> prints the two groups; the model returns them, overdue first.
\<close>

definition remind_tasks ::
  "datetime \<Rightarrow> TaskManager \<Rightarrow> (Task list \<times> Task list) \<times> TaskManager" where
  "remind_tasks now st =
     (case remind_loop now (tasks st) [] [] of
        (overdue_tasks, pending_tasks) \<Rightarrow>
          ((list_sort priority overdue_tasks, list_sort priority pending_tasks), st))"

fun find_task :: "string \<Rightarrow> entry list \<Rightarrow> nat \<Rightarrow> (nat \<times> Task) option" where
  "find_task task_name [] index = None"
| "find_task task_name ((p, d, task) # es) index =
     (if name task = task_name then Some (index, task)
      else find_task task_name es (index + 1))"

text \<open>
  \<^verbatim>\<open>mark_task_as_completed\<close> prints whether the task was found; the model returns
  that as a truth value.
\<close>

definition mark_task_as_completed :: "string \<Rightarrow> TaskManager \<Rightarrow> bool \<times> TaskManager" where
  "mark_task_as_completed task_name st =
     (case find_task task_name (tasks st) 0 of
        Some (index, task) \<Rightarrow>
          (True, st\<lparr>completed_tasks := completed_tasks st @ [task],
                    tasks := take index (tasks st) @ drop (Suc index) (tasks st)\<rparr>)
      | None \<Rightarrow> (False, st))"

definition view_completed_tasks :: "TaskManager \<Rightarrow> Task list \<times> TaskManager" where
  "view_completed_tasks st = (completed_tasks st, st)"

section \<open>Density analysis\<close>

text \<open>
  \<^verbatim>\<open>timedelta.total_seconds()\<close> divides the number of microseconds by 1000000 as a
  true division of integers: the result is the double nearest to the quotient, ties to
  the even mantissa. For \<open>n > 0\<close> microseconds and the exponent \<open>e\<close> with
  \<open>2^e \<le> n / 1000000 < 2^(e + 1)\<close>, that double is \<open>m / 2^(52 - e)\<close>, where \<open>m\<close> is
  \<open>n * 2^(52 - e) / 1000000\<close> rounded to the nearest integer, ties to the even one. A
  \<^verbatim>\<open>timedelta\<close> is shorter than \<open>2^47\<close> seconds, so \<open>52 - e\<close> is positive. The floor
  division of a double by 3600 is exact. All of it is written out in integer arithmetic.
\<close>

definition round_half_even :: "int \<Rightarrow> int \<Rightarrow> int" where
  "round_half_even a b =
     (let q = a div b; r = a mod b
      in if 2 * r < b then q
         else if b < 2 * r then q + 1
         else if even q then q else q + 1)"

fun bit_length :: "nat \<Rightarrow> nat" where
  "bit_length n = (if n = 0 then 0 else Suc (bit_length (n div 2)))"

declare bit_length.simps [simp del]

text \<open>The exponent \<open>e\<close> with \<open>2^e \<le> n / 1000000 < 2^(e + 1)\<close>, for \<open>n > 0\<close>.\<close>

definition double_exponent :: "int \<Rightarrow> int" where
  "double_exponent n =
     (if 1000000 \<le> n then int (bit_length (nat (n div 1000000))) - 1
      else - int (bit_length (nat (999999 div n))))"

text \<open>The expression \<^verbatim>\<open>int(td.total_seconds() // 3600)\<close>.\<close>

definition total_seconds_floordiv_3600 :: "timedelta \<Rightarrow> int" where
  "total_seconds_floordiv_3600 td =
     (if td = 0 then 0
      else let n = \<bar>td\<bar>;
               s = nat (52 - double_exponent n);
               m = round_half_even (n * 2 ^ s) 1000000
           in (sgn td * m) div (3600 * 2 ^ s))"

text \<open>The expression \<^verbatim>\<open>d + timedelta(hours=h)\<close>.\<close>

definition plus_hours :: "datetime \<Rightarrow> int \<Rightarrow> error + datetime" where
  "plus_hours d h =
     (case timedelta_hours h of
        Inl e \<Rightarrow> Inl e
      | Inr td \<Rightarrow> datetime_add d td)"

fun density_times :: "datetime \<Rightarrow> int list \<Rightarrow> error + datetime list" where
  "density_times first [] = Inr []"
| "density_times first (i # rest) =
     (case plus_hours first i of
        Inl e \<Rightarrow> Inl e
      | Inr time \<Rightarrow>
          (case density_times first rest of
             Inl e \<Rightarrow> Inl e
           | Inr ts \<Rightarrow> Inr (time # ts)))"

definition count_due :: "datetime list \<Rightarrow> datetime \<Rightarrow> nat" where
  "count_due deadlines time = length (filter (\<lambda>deadline. deadline \<le> time) deadlines)"

text \<open>
  \<^verbatim>\<open>analyze_task_density\<close> hands the bucket timestamps and the counts to the plotting
  library; the model returns the two lists, and nothing when the store is empty.
\<close>

definition analyze_task_density ::
  "TaskManager \<Rightarrow> error + (datetime list \<times> nat list) option" where
  "analyze_task_density st =
     (let deadlines = map (\<lambda>(_, _, task). deadline task) (tasks st)
      in if deadlines = [] then Inr None
         else
           (let deadlines = list_sort (\<lambda>d. d) deadlines;
                hours = total_seconds_floordiv_3600 (last deadlines - hd deadlines)
            in case density_times (hd deadlines) [0..hours] of
                 Inl e \<Rightarrow> Inl e
               | Inr ts \<Rightarrow> Inr (Some (ts, map (count_due deadlines) ts))))"

section \<open>Auxiliary notions\<close>

text \<open>An entry made by \<^verbatim>\<open>add_task\<close> carries the priority and deadline of its task.\<close>

fun keyed_by_task :: "entry \<Rightarrow> bool" where
  "keyed_by_task (p, d, task) \<longleftrightarrow> p = priority task \<and> d = deadline task"

text \<open>
  A sequence of tasks is feasible from a starting time when each task, performed after
  the ones before it, finishes by its deadline (times in microseconds, durations in
  minutes).
\<close>

fun feasible :: "datetime \<Rightarrow> Task list \<Rightarrow> bool" where
  "feasible start [] \<longleftrightarrow> True"
| "feasible start (task # ts) \<longleftrightarrow>
     start + duration task * 60000000 \<le> deadline task
     \<and> feasible (start + duration task * 60000000) ts"

text \<open>
  Two entries can be compared by \<open>tuple_lt\<close> when they differ in priority or deadline,
  or hold the same task object.
\<close>

fun entry_key :: "entry \<Rightarrow> int \<times> datetime" where
  "entry_key (p, d, task) = (p, d)"

definition comparable :: "entry \<Rightarrow> entry \<Rightarrow> bool" where
  "comparable x y \<longleftrightarrow> entry_key x \<noteq> entry_key y \<or> entry_task x = entry_task y"

text \<open>The merge of two lists, by recursion on the lists instead of on indices.\<close>

fun merge_lists :: "('a \<Rightarrow> 'k::linorder) \<Rightarrow> 'a list \<Rightarrow> 'a list \<Rightarrow> 'a list" where
  "merge_lists key [] ys = ys"
| "merge_lists key xs [] = xs"
| "merge_lists key (x # xs) (y # ys) =
     (if key x \<le> key y then x # merge_lists key xs (y # ys)
      else y # merge_lists key (x # xs) ys)"

section \<open>Example tasks\<close>

text \<open>
  Tasks A and B of the scenario at current time 0 (A: priority 1, due after 60 minutes,
  30 minutes long; B: priority 2, due after 45 minutes, 30 minutes long), a task C with
  the priority and deadline of B, a second task named A, two tasks due at the
  earliest and at the latest \<^verbatim>\<open>datetime\<close>, and a task of ten thousand million minutes.
\<close>

definition ex_A :: Task where
  "ex_A = \<lparr>oid = 0, name = ''A'', task_type = ''academic'', deadline = 3600000000,
           priority = 1, duration = 30\<rparr>"

definition ex_B :: Task where
  "ex_B = \<lparr>oid = 1, name = ''B'', task_type = ''personal'', deadline = 2700000000,
           priority = 2, duration = 30\<rparr>"

definition ex_C :: Task where
  "ex_C = \<lparr>oid = 2, name = ''C'', task_type = ''personal'', deadline = 2700000000,
           priority = 2, duration = 10\<rparr>"

definition ex_A2 :: Task where
  "ex_A2 = \<lparr>oid = 3, name = ''A'', task_type = ''personal'', deadline = 7200000000,
            priority = 3, duration = 15\<rparr>"

definition ex_first :: Task where
  "ex_first = \<lparr>oid = 4, name = ''first'', task_type = ''academic'', deadline = 0,
               priority = 1, duration = 30\<rparr>"

definition ex_last :: Task where
  "ex_last = \<lparr>oid = 5, name = ''last'', task_type = ''academic'',
              deadline = 315537897599999999, priority = 2, duration = 30\<rparr>"

definition ex_long :: Task where
  "ex_long = \<lparr>oid = 6, name = ''long'', task_type = ''academic'', deadline = 3600000000,
              priority = 1, duration = 10000000000\<rparr>"

definition ex_store :: TaskManager where
  "ex_store = \<lparr>tasks = [(1, 3600000000, ex_A), (2, 2700000000, ex_B)],
               schedule = [], completed_tasks = []\<rparr>"

section \<open>The store as a list object\<close>

text \<open>
  Python lists are objects: \<^verbatim>\<open>self.tasks\<close> and the argument of \<^verbatim>\<open>merge_sort\<close> are
  references to the same list. To follow which list objects a call creates and which it
  changes, the lists live in a heap, addressed by their position in it. A slice
  \<^verbatim>\<open>tasks[:mid]\<close> and the \<^verbatim>\<open>result\<close> of \<^verbatim>\<open>merge\<close> are new objects; \<^verbatim>\<open>result\<close> is
  referred to by \<^verbatim>\<open>merge\<close> alone until it is returned, so it enters the heap with its
  final content. \<^verbatim>\<open>merge_sort\<close> returns its argument itself when it has at most one
  element. Every reference is to a list of the heap; for any other address the model
  returns at once.
\<close>

type_synonym addr = nat

type_synonym 'a heap = "'a list list"

definition new_list :: "'a list \<Rightarrow> 'a heap \<Rightarrow> addr \<times> 'a heap" where
  "new_list xs h = (length h, h @ [xs])"

definition merge_h ::
  "('a \<Rightarrow> 'k::linorder) \<Rightarrow> addr \<Rightarrow> addr \<Rightarrow> 'a heap \<Rightarrow> addr \<times> 'a heap" where
  "merge_h key left right h = new_list (merge key (h ! left) (h ! right)) h"

function merge_sort_h ::
  "('a \<Rightarrow> 'k::linorder) \<Rightarrow> addr \<Rightarrow> 'a heap \<Rightarrow> addr \<times> 'a heap" where
  "merge_sort_h key a h =
     (if \<not> a < length h then (a, h)
      else if length (h ! a) \<le> 1 then (a, h)
      else
        (let mid = length (h ! a) div 2;
             (s1, h1) = new_list (take mid (h ! a)) h;
             (left, h2) = merge_sort_h key s1 h1;
             (s2, h3) = new_list (drop mid (h2 ! a)) h2;
             (right, h4) = merge_sort_h key s2 h3
         in merge_h key left right h4))"
  by pat_completeness auto

definition get_upcoming_tasks_h :: "addr \<Rightarrow> entry heap \<Rightarrow> Task list \<times> entry heap" where
  "get_upcoming_tasks_h self_tasks h =
     (case merge_sort_h entry_deadline self_tasks h of
        (sorted_tasks, h') \<Rightarrow> (map entry_task (h' ! sorted_tasks), h'))"

text \<open>
  The second recursive call reads the argument list after the first one has returned, so
  termination needs that the first call leaves the lists of the heap as they are.
\<close>

lemma merge_sort_h_frame_dom:
  "merge_sort_h_dom (key, a, h) \<Longrightarrow> merge_sort_h key a h = (r, h') \<Longrightarrow>
   length h \<le> length h' \<and> take (length h) h' = h"
proof (induction key a h arbitrary: r h' rule: merge_sort_h.pinduct)
  case (1 key a h)
  show ?case
  proof (cases "\<not> a < length h \<or> length (h ! a) \<le> 1")
    case True
    then have "merge_sort_h key a h = (a, h)"
      by (subst merge_sort_h.psimps [OF "1.hyps"]) auto
    then show ?thesis using "1.prems" by simp
  next
    case False
    define mid where "mid = length (h ! a) div 2"
    define h1 where "h1 = h @ [take mid (h ! a)]"
    obtain left h2 where c1: "merge_sort_h key (length h) h1 = (left, h2)"
      by (cases "merge_sort_h key (length h) h1")
    define h3 where "h3 = h2 @ [drop mid (h2 ! a)]"
    obtain right h4 where c2: "merge_sort_h key (length h2) h3 = (right, h4)"
      by (cases "merge_sort_h key (length h2) h3")
    have res: "merge_sort_h key a h = merge_h key left right h4"
      using False "1.hyps" c1 c2
      by (simp add: merge_sort_h.psimps new_list_def mid_def h1_def h3_def Let_def)
    have f1: "length h1 \<le> length h2 \<and> take (length h1) h2 = h1"
      using "1.IH"(1) [of mid "(length h, h1)" "length h" h1 left h2] False c1
      by (simp add: mid_def h1_def new_list_def)
    have f2: "length h3 \<le> length h4 \<and> take (length h3) h4 = h3"
      using "1.IH"(2) [of mid "(length h, h1)" "length h" h1 "(left, h2)" left h2
          "(length h2, h3)" "length h2" h3 right h4] False c1 c2
      by (simp add: mid_def h1_def h3_def new_list_def)
    have h': "h' = h4 @ [merge key (h4 ! left) (h4 ! right)]"
      using "1.prems" res by (simp add: merge_h_def new_list_def)
    have l: "length h \<le> length h1" "length h1 \<le> length h2" "length h2 \<le> length h3"
      "length h3 \<le> length h4" "length h4 \<le> length h'"
      using f1 f2 by (simp_all add: h1_def h3_def h')
    have "take (length h) h' = take (length h) h4" using l by (simp add: h')
    also have "\<dots> = take (length h) (take (length h3) h4)" using l by (simp add: min_def)
    also have "\<dots> = take (length h) h2" using f2 l by (simp add: h3_def)
    also have "\<dots> = take (length h) (take (length h1) h2)" using l by (simp add: min_def)
    also have "\<dots> = h" using f1 by (simp add: h1_def)
    finally show ?thesis using l by simp
  qed
qed

lemma merge_sort_h_total: "All merge_sort_h_dom"
proof (relation "measure (\<lambda>(key, a, h). length (h ! a))", goal_cases)
  case 1
  show ?case by simp
next
  case (2 key a h mid x s1 h1)
  then show ?case by (auto simp: new_list_def)
next
  case (3 key a h mid x s1 h1 xa left h2 xb s2 h3)
  then have "length h1 \<le> length h2 \<and> take (length h1) h2 = h1"
    using merge_sort_h_frame_dom [of key s1 h1 left h2] by simp
  moreover have "h1 = h @ [take mid (h ! a)]" using 3 by (simp add: new_list_def)
  ultimately have "h2 ! a = h ! a"
    using 3 by (metis (no_types, lifting) length_append less_le_trans nth_append nth_take trans_less_add1)
  then show ?case using 3 by (auto simp: new_list_def)
qed

termination merge_sort_h
  by (rule merge_sort_h_total)

declare merge_sort_h.simps [simp del]

section \<open>Properties of the merge sort\<close>

lemma merge_lists_Nil2 [simp]: "merge_lists key xs [] = xs"
  by (cases xs) simp_all

lemma merge_loop_eq:
  "i \<le> length left \<Longrightarrow> j \<le> length right \<Longrightarrow>
   merge_loop key left right i j result = result @ merge_lists key (drop i left) (drop j right)"
proof (induction key left right i j result rule: merge_loop.induct)
  case (1 key left right i j result)
  show ?case
  proof (cases "i < length left \<and> j < length right")
    case True
    then have dl: "drop i left = left ! i # drop (Suc i) left"
      and dr: "drop j right = right ! j # drop (Suc j) right"
      by (simp_all add: Cons_nth_drop_Suc)
    show ?thesis
    proof (cases "key (left ! i) \<le> key (right ! j)")
      case le: True
      have "merge_loop key left right i j result
            = merge_loop key left right (i + 1) j (result @ [left ! i])"
        using True le by (subst merge_loop.simps) simp
      also have "\<dots> = (result @ [left ! i]) @ merge_lists key (drop (i + 1) left) (drop j right)"
        using "1.IH"(1) [OF True le] True by simp
      finally show ?thesis using le dl dr by simp
    next
      case gt: False
      have "merge_loop key left right i j result
            = merge_loop key left right i (j + 1) (result @ [right ! j])"
        using True gt by (subst merge_loop.simps) simp
      also have "\<dots> = (result @ [right ! j]) @ merge_lists key (drop i left) (drop (j + 1) right)"
        using "1.IH"(2) [OF True gt] True by simp
      finally show ?thesis using gt dl dr by simp
    qed
  next
    case False
    then have "drop i left = [] \<or> drop j right = []"
      using "1.prems" by auto
    then have "merge_lists key (drop i left) (drop j right) = drop i left @ drop j right"
      by auto
    moreover have "merge_loop key left right i j result = result @ drop i left @ drop j right"
      by (subst merge_loop.simps) (simp only: if_not_P [OF False])
    ultimately show ?thesis by simp
  qed
qed

lemma merge_eq: "merge key left right = merge_lists key left right"
  by (simp add: merge_def merge_loop_eq)

lemma mset_merge_lists: "mset (merge_lists key xs ys) = mset xs + mset ys"
  by (induction key xs ys rule: merge_lists.induct) simp_all

lemma set_merge_lists: "set (merge_lists key xs ys) = set xs \<union> set ys"
  by (induction key xs ys rule: merge_lists.induct) auto

lemma sorted_merge_lists:
  "sorted (map key xs) \<Longrightarrow> sorted (map key ys) \<Longrightarrow> sorted (map key (merge_lists key xs ys))"
  by (induction key xs ys rule: merge_lists.induct) (auto simp: set_merge_lists)

lemma filter_merge_lists:
  "sorted (map key xs) \<Longrightarrow> sorted (map key ys) \<Longrightarrow>
   filter (\<lambda>x. key x = k) (merge_lists key xs ys)
     = filter (\<lambda>x. key x = k) xs @ filter (\<lambda>x. key x = k) ys"
proof (induction key xs ys rule: merge_lists.induct)
  case (3 key x xs y ys)
  show ?case
  proof (cases "key x \<le> key y")
    case True
    then show ?thesis using 3 by simp
  next
    case False
    have "\<forall>z \<in> set (x # xs). key z \<noteq> key y"
      using False "3.prems"(1) by auto
    then have "key y = k \<Longrightarrow> filter (\<lambda>x. key x = k) (x # xs) = []"
      by (auto simp: filter_empty_conv)
    then show ?thesis using False 3 by auto
  qed
qed simp_all

lemma merge_sort_props:
  "mset (merge_sort key xs) = mset xs \<and> sorted (map key (merge_sort key xs))
   \<and> filter (\<lambda>x. key x = k) (merge_sort key xs) = filter (\<lambda>x. key x = k) xs"
proof (induction key xs rule: merge_sort.induct)
  case (1 key xs)
  show ?case
  proof (cases "length xs \<le> 1")
    case True
    then have "merge_sort key xs = xs" by (subst merge_sort.simps) simp
    moreover have "sorted (map key xs)" using True by (cases xs) auto
    ultimately show ?thesis by simp
  next
    case False
    define mid where "mid = length xs div 2"
    have ms: "merge_sort key xs
              = merge_lists key (merge_sort key (take mid xs)) (merge_sort key (drop mid xs))"
      using False by (subst merge_sort.simps) (simp add: mid_def merge_eq Let_def)
    note IH1 = "1.IH"(1) [OF False mid_def]
    note IH2 = "1.IH"(2) [OF False mid_def refl]
    have "mset (merge_sort key xs) = mset (take mid xs) + mset (drop mid xs)"
      using IH1 IH2 by (simp add: ms mset_merge_lists)
    also have "\<dots> = mset xs"
      by (metis append_take_drop_id mset_append)
    finally have A: "mset (merge_sort key xs) = mset xs" .
    have B: "sorted (map key (merge_sort key xs))"
      using IH1 IH2 by (simp add: ms sorted_merge_lists)
    have "filter (\<lambda>x. key x = k) (merge_sort key xs)
          = filter (\<lambda>x. key x = k) (take mid xs) @ filter (\<lambda>x. key x = k) (drop mid xs)"
      using IH1 IH2 by (simp add: ms filter_merge_lists)
    also have "\<dots> = filter (\<lambda>x. key x = k) xs"
      by (metis append_take_drop_id filter_append)
    finally show ?thesis using A B by simp
  qed
qed

section \<open>Properties of the operations\<close>

lemmas datetime_defs = plus_minutes_def timedelta_minutes_def new_timedelta_def
  datetime_add_def valid_datetime_def DATETIME_MAX_def TIMEDELTA_MIN_def TIMEDELTA_MAX_def

lemmas example_defs = ex_A_def ex_B_def ex_C_def ex_A2_def ex_first_def ex_last_def
  ex_long_def ex_store_def init_def

lemma find_task_none:
  "\<forall>e \<in> set es. name (entry_task e) \<noteq> task_name \<Longrightarrow> find_task task_name es i = None"
  by (induction es arbitrary: i) auto

lemma find_task_first:
  "\<forall>e \<in> set pre. name (entry_task e) \<noteq> task_name \<Longrightarrow> name task = task_name \<Longrightarrow>
   find_task task_name (pre @ (p, d, task) # post) i = Some (i + length pre, task)"
  by (induction pre arbitrary: i) auto

lemma remind_loop_eq:
  "remind_loop now es overdue pending =
     (overdue @ map entry_task (filter (\<lambda>e. entry_deadline e < now) es),
      pending @ map entry_task (filter (\<lambda>e. \<not> entry_deadline e < now) es))"
  by (induction es arbitrary: overdue pending) auto

lemma plus_minutes_Inr:
  "plus_minutes c m = Inr f \<Longrightarrow> f = c + m * 60000000"
  by (auto simp: plus_minutes_def timedelta_minutes_def new_timedelta_def datetime_add_def
      split: if_splits sum.splits)

lemma schedule_loop_feasible:
  "schedule_loop es c acc = Inr res \<Longrightarrow> list_all keyed_by_task es \<Longrightarrow>
   \<exists>new. res = acc @ new \<and> feasible c new"
proof (induction es c acc rule: schedule_loop.induct)
  case (1 c acc)
  then show ?case by simp
next
  case (2 p d task es c acc)
  from "2.prems"(1) obtain f where f: "plus_minutes c (duration task) = Inr f"
    by (auto split: sum.splits)
  then have fe: "f = c + duration task * 60000000" by (rule plus_minutes_Inr)
  have k: "d = deadline task" "list_all keyed_by_task es" using "2.prems"(2) by simp_all
  show ?case
  proof (cases "f \<le> d")
    case True
    then have "schedule_loop es f (acc @ [task]) = Inr res"
      using "2.prems"(1) f by simp
    from "2.IH"(1) [OF f True f this k(2)]
    obtain new where "res = (acc @ [task]) @ new" "feasible f new" by blast
    then have "res = acc @ (task # new) \<and> feasible c (task # new)"
      using True fe k(1) by simp
    then show ?thesis by blast
  next
    case False
    then have "schedule_loop es c acc = Inr res"
      using "2.prems"(1) f by simp
    from "2.IH"(2) [OF f False this k(2)] show ?thesis .
  qed
qed

lemma feasible_nth:
  "feasible c ts \<Longrightarrow> i < length ts \<Longrightarrow>
   c + sum_list (map duration (take (Suc i) ts)) * 60000000 \<le> deadline (ts ! i)"
proof (induction ts arbitrary: c i)
  case Nil
  then show ?case by simp
next
  case (Cons t ts)
  show ?case
  proof (cases i)
    case 0
    then show ?thesis using Cons.prems by simp
  next
    case (Suc k)
    then have "k < length ts" using Cons.prems by simp
    from Cons.IH [OF _ this, of "c + duration t * 60000000"] Cons.prems(1)
    show ?thesis using Suc by (simp add: algebra_simps)
  qed
qed

lemma insort_py_mset: "insort_py x ys = Inr zs \<Longrightarrow> mset zs = add_mset x (mset ys)"
  by (induction ys arbitrary: zs) (auto split: sum.splits bool.splits)

lemma sorted_loop_mset: "sorted_loop acc xs = Inr ys \<Longrightarrow> mset ys = mset acc + mset xs"
  by (induction xs arbitrary: acc) (auto split: sum.splits dest!: insort_py_mset)

lemma sorted_py_mset: "sorted_py xs = Inr ys \<Longrightarrow> mset ys = mset xs"
  by (auto simp: sorted_py_def dest: sorted_loop_mset)

lemma list_sort_props:
  "mset (list_sort key xs) = mset xs \<and> sorted (map key (list_sort key xs))
   \<and> filter (\<lambda>x. key x = k) (list_sort key xs) = filter (\<lambda>x. key x = k) xs"
  by (simp add: list_sort_def sort_key_stable)

lemma mset_partition_map:
  "mset (map f (filter P xs)) + mset (map f (filter (\<lambda>x. \<not> P x) xs)) = mset (map f xs)"
  by (induction xs) simp_all

lemma keyed_filter_map:
  "list_all keyed_by_task es \<Longrightarrow>
   filter (\<lambda>t. deadline t = d) (map entry_task es)
     = map entry_task (filter (\<lambda>e. entry_deadline e = d) es)"
  by (induction es) auto

lemma keyed_map_deadline:
  "list_all keyed_by_task es \<Longrightarrow> map deadline (map entry_task es) = map entry_deadline es"
  by (induction es) auto

subsection \<open>The built-in sort and the priority queue\<close>

lemma tuple_lt_eq:
  "tuple_lt x y = (if comparable x y then Inr (entry_key x < entry_key y) else Inl TypeError)"
  by (cases x; cases y) (auto simp: comparable_def less_prod_def)

lemma insort_py_ok:
  "\<forall>y \<in> set ys. comparable x y \<Longrightarrow> sorted (map entry_key ys) \<Longrightarrow>
   \<exists>zs. insort_py x ys = Inr zs \<and> sorted (map entry_key zs) \<and> mset zs = add_mset x (mset ys)
     \<and> (\<forall>k. filter (\<lambda>e. entry_key e = k) zs
            = filter (\<lambda>e. entry_key e = k) ys @ filter (\<lambda>e. entry_key e = k) [x])"
proof (induction ys)
  case Nil
  then show ?case by simp
next
  case (Cons y ys)
  show ?case
  proof (cases "entry_key x < entry_key y")
    case True
    have "\<forall>z \<in> set (y # ys). entry_key x < entry_key z"
      using True Cons.prems(2) by auto
    then have "\<forall>k. entry_key x = k \<longrightarrow> filter (\<lambda>e. entry_key e = k) (y # ys) = []"
      by (auto simp: filter_empty_conv)
    then show ?thesis
      using True Cons.prems by (auto simp: tuple_lt_eq)
  next
    case False
    obtain zs where zs: "insort_py x ys = Inr zs" "sorted (map entry_key zs)"
      "mset zs = add_mset x (mset ys)"
      "\<forall>k. filter (\<lambda>e. entry_key e = k) zs
            = filter (\<lambda>e. entry_key e = k) ys @ filter (\<lambda>e. entry_key e = k) [x]"
      using Cons by auto
    have "set zs = insert x (set ys)" using zs(3) by (metis mset_eq_setD set_mset_add_mset_insert set_mset_mset)
    then have "sorted (map entry_key (y # zs))"
      using zs(2) False Cons.prems(2) by auto
    then show ?thesis
      using False Cons.prems zs by (auto simp: tuple_lt_eq)
  qed
qed

lemma insort_py_conflict:
  "y \<in> set ys \<Longrightarrow> \<not> comparable x y \<Longrightarrow> sorted (map entry_key ys) \<Longrightarrow>
   insort_py x ys = Inl TypeError"
proof (induction ys)
  case Nil
  then show ?case by simp
next
  case (Cons z zs)
  show ?case
  proof (cases "comparable x z")
    case False
    then show ?thesis by (simp add: tuple_lt_eq)
  next
    case True
    then have yz: "y \<in> set zs" using Cons.prems by auto
    have "entry_key x = entry_key y" using Cons.prems(2) by (simp add: comparable_def)
    moreover have "entry_key z \<le> entry_key y" using yz Cons.prems(3) by auto
    ultimately have "\<not> entry_key x < entry_key z" by simp
    moreover have "insort_py x zs = Inl TypeError"
      using Cons yz by simp
    ultimately show ?thesis using True by (simp add: tuple_lt_eq)
  qed
qed

lemma sorted_loop_ok:
  "\<forall>x \<in> set (acc @ xs). \<forall>y \<in> set (acc @ xs). comparable x y \<Longrightarrow>
   sorted (map entry_key acc) \<Longrightarrow>
   \<exists>ys. sorted_loop acc xs = Inr ys \<and> sorted (map entry_key ys) \<and> mset ys = mset acc + mset xs
     \<and> (\<forall>k. filter (\<lambda>e. entry_key e = k) ys
            = filter (\<lambda>e. entry_key e = k) acc @ filter (\<lambda>e. entry_key e = k) xs)"
proof (induction xs arbitrary: acc)
  case Nil
  then show ?case by simp
next
  case (Cons x xs)
  have "\<forall>y \<in> set acc. comparable x y" using Cons.prems(1) by simp
  from insort_py_ok [OF this Cons.prems(2)]
  obtain zs where zs: "insort_py x acc = Inr zs" "sorted (map entry_key zs)"
    "mset zs = add_mset x (mset acc)"
    "\<forall>k. filter (\<lambda>e. entry_key e = k) zs
            = filter (\<lambda>e. entry_key e = k) acc @ filter (\<lambda>e. entry_key e = k) [x]"
    by blast
  have "set zs = insert x (set acc)" using zs(3) by (metis mset_eq_setD set_mset_add_mset_insert set_mset_mset)
  then have "\<forall>a \<in> set (zs @ xs). \<forall>b \<in> set (zs @ xs). comparable a b"
    using Cons.prems(1) by auto
  from Cons.IH [OF this zs(2)]
  obtain ys where ys: "sorted_loop zs xs = Inr ys" "sorted (map entry_key ys)"
    "mset ys = mset zs + mset xs"
    "\<forall>k. filter (\<lambda>e. entry_key e = k) ys
            = filter (\<lambda>e. entry_key e = k) zs @ filter (\<lambda>e. entry_key e = k) xs"
    by blast
  show ?case using zs ys by simp
qed

lemma sorted_py_no_ties:
  assumes "\<forall>x \<in> set xs. \<forall>y \<in> set xs. comparable x y"
  shows "sorted_py xs = Inr (sort_key entry_key xs)"
proof -
  from sorted_loop_ok [of "[]" xs] assms
  obtain ys where ys: "sorted_py xs = Inr ys" "sorted (map entry_key ys)" "mset ys = mset xs"
    "\<forall>k. filter (\<lambda>e. entry_key e = k) ys = filter (\<lambda>e. entry_key e = k) xs"
    by (auto simp: sorted_py_def)
  have "sort_key entry_key xs = ys"
    using ys(3) _ ys(2)
  proof (rule properties_for_sort_key)
    show "\<And>k. k \<in> set ys \<Longrightarrow>
      filter (\<lambda>x. entry_key k = entry_key x) ys = filter (\<lambda>x. entry_key k = entry_key x) xs"
      using ys(4) by (metis (mono_tags, lifting) filter_cong)
  qed
  then show ?thesis using ys(1) by simp
qed

lemma comparable_sym: "comparable x y \<longleftrightarrow> comparable y x"
  by (auto simp: comparable_def)

lemma comparable_refl: "comparable x x"
  by (simp add: comparable_def)

lemma sorted_loop_conflict:
  "\<forall>x \<in> set acc. \<forall>y \<in> set acc. comparable x y \<Longrightarrow> sorted (map entry_key acc) \<Longrightarrow>
   \<exists>x \<in> set (acc @ xs). \<exists>y \<in> set (acc @ xs). \<not> comparable x y \<Longrightarrow>
   sorted_loop acc xs = Inl TypeError"
proof (induction xs arbitrary: acc)
  case Nil
  then show ?case by auto
next
  case (Cons x xs)
  show ?case
  proof (cases "\<forall>y \<in> set acc. comparable x y")
    case False
    then obtain y where "y \<in> set acc" "\<not> comparable x y" by blast
    then have "insort_py x acc = Inl TypeError"
      using Cons.prems(2) by (rule insort_py_conflict)
    then show ?thesis by simp
  next
    case True
    from insort_py_ok [OF True Cons.prems(2)]
    obtain zs where zs: "insort_py x acc = Inr zs" "sorted (map entry_key zs)"
      "mset zs = add_mset x (mset acc)"
      by blast
    have sz: "set zs = insert x (set acc)"
      using zs(3) by (metis mset_eq_setD set_mset_add_mset_insert set_mset_mset)
    have c: "\<forall>a \<in> set zs. \<forall>b \<in> set zs. comparable a b"
      using True Cons.prems(1) comparable_sym comparable_refl unfolding sz by blast
    have "\<exists>a \<in> set (zs @ xs). \<exists>b \<in> set (zs @ xs). \<not> comparable a b"
      using Cons.prems(3) unfolding set_append sz by auto
    from Cons.IH [OF c zs(2) this] show ?thesis using zs(1) by simp
  qed
qed

lemma sorted_py_ties:
  assumes "\<exists>x \<in> set xs. \<exists>y \<in> set xs. \<not> comparable x y"
  shows "sorted_py xs = Inl TypeError"
  using sorted_loop_conflict [of "[]" xs] assms by (simp add: sorted_py_def)

lemma sorted_py_eq:
  "sorted_py xs =
     (if \<forall>x \<in> set xs. \<forall>y \<in> set xs. comparable x y then Inr (sort_key entry_key xs)
      else Inl TypeError)"
  using sorted_py_no_ties [of xs] sorted_py_ties [of xs] by auto

lemma siftdown_mset:
  "pos < length heap \<Longrightarrow> siftdown heap newitem pos = Inr h \<Longrightarrow>
   mset h = mset (heap[pos := newitem])"
proof (induction heap newitem pos arbitrary: h rule: siftdown.induct)
  case (1 heap newitem pos)
  show ?case
  proof (cases "pos > 0")
    case False
    then show ?thesis using "1.prems" by (subst (asm) siftdown.simps) auto
  next
    case True
    define parentpos where "parentpos = (pos - 1) div 2"
    define parent where "parent = heap ! parentpos"
    have pp: "parentpos < pos" using True by (simp add: parentpos_def)
    show ?thesis
    proof (cases "tuple_lt newitem parent")
      case (Inl e)
      then show ?thesis using "1.prems" True
        by (subst (asm) siftdown.simps) (simp add: parentpos_def parent_def Let_def)
    next
      case (Inr b)
      show ?thesis
      proof (cases b)
        case False
        then show ?thesis using "1.prems" True Inr
          by (subst (asm) siftdown.simps) (auto simp: parentpos_def parent_def Let_def)
      next
        case b: True
        have s: "siftdown (heap[pos := parent]) newitem parentpos = Inr h"
          using "1.prems"(2) True Inr b
          by (subst (asm) siftdown.simps) (simp add: parentpos_def parent_def Let_def)
        have "mset h = mset (heap[pos := parent, parentpos := newitem])"
        proof (rule "1.IH" [OF True parentpos_def parent_def Inr _ _ s])
          show "b = True" using b by simp
          show "parentpos < length (heap[pos := parent])" using pp "1.prems"(1) by simp
        qed
        also have "\<dots> = mset (heap[pos := newitem])"
          using pp "1.prems"(1)
          by (simp add: mset_update nth_list_update parent_def)
        finally show ?thesis .
      qed
    qed
  qed
qed

lemma heappush_mset: "heappush heap item = Inr h \<Longrightarrow> mset h = add_mset item (mset heap)"
  using siftdown_mset [of "length heap" "heap @ [item]" item h]
  by (simp add: heappush_def)

lemma add_task_entries:
  "add_task task st = Inr st' \<Longrightarrow>
   mset (tasks st') = add_mset (priority task, deadline task, task) (mset (tasks st))
   \<and> schedule st' = schedule st \<and> completed_tasks st' = completed_tasks st"
  by (auto simp: add_task_def split: sum.splits dest: heappush_mset)

lemma add_task_keyed:
  "add_task task st = Inr st' \<Longrightarrow> list_all keyed_by_task (tasks st) \<Longrightarrow>
   list_all keyed_by_task (tasks st')"
proof -
  assume a: "add_task task st = Inr st'" and k: "list_all keyed_by_task (tasks st)"
  have "set (tasks st') = insert (priority task, deadline task, task) (set (tasks st))"
    using add_task_entries [OF a] by (metis mset_eq_setD set_mset_add_mset_insert set_mset_mset)
  then show ?thesis using k by (simp add: list_all_iff)
qed

lemma mark_task_as_completed_keyed:
  "list_all keyed_by_task (tasks st) \<Longrightarrow>
   list_all keyed_by_task (tasks (snd (mark_task_as_completed task_name st)))"
  by (auto simp: mark_task_as_completed_def list_all_iff split: option.splits
      dest: in_set_takeD in_set_dropD)

lemma schedule_tasks_no_ties:
  assumes "\<forall>x \<in> set (tasks st). \<forall>y \<in> set (tasks st). comparable x y"
  shows "fst (schedule_tasks now st) = schedule_loop (sort_key entry_key (tasks st)) now []"
  by (simp add: schedule_tasks_def sorted_py_no_ties [OF assms] split: sum.splits)

lemma plus_minutes_ok:
  "0 \<le> m \<Longrightarrow> 0 \<le> c \<Longrightarrow> c + m * 60000000 \<le> DATETIME_MAX \<Longrightarrow>
   plus_minutes c m = Inr (c + m * 60000000)"
  by (simp add: datetime_defs)

lemma schedule_loop_returns:
  assumes "0 \<le> c" and "c \<le> M"
    and "\<forall>e \<in> set es. 0 \<le> duration (entry_task e)
           \<and> M + duration (entry_task e) * 60000000 \<le> DATETIME_MAX
           \<and> entry_deadline e \<le> M"
  shows "\<exists>res. schedule_loop es c acc = Inr res"
  using assms
proof (induction es arbitrary: c acc)
  case Nil
  then show ?case by simp
next
  case (Cons e es)
  obtain p d task where e: "e = (p, d, task)" by (cases e)
  have t: "0 \<le> duration task" "M + duration task * 60000000 \<le> DATETIME_MAX" "d \<le> M"
    using Cons.prems(3) by (simp_all add: e)
  have pm: "plus_minutes c (duration task) = Inr (c + duration task * 60000000)"
    using t Cons.prems(1,2) by (intro plus_minutes_ok) simp_all
  have rest: "\<forall>e \<in> set es. 0 \<le> duration (entry_task e)
           \<and> M + duration (entry_task e) * 60000000 \<le> DATETIME_MAX
           \<and> entry_deadline e \<le> M"
    using Cons.prems(3) by simp
  show ?case
  proof (cases "c + duration task * 60000000 \<le> d")
    case True
    have "0 \<le> c + duration task * 60000000" using t(1) Cons.prems(1) by simp
    moreover have "c + duration task * 60000000 \<le> M" using True t(3) by simp
    ultimately obtain res where
      "schedule_loop es (c + duration task * 60000000) (acc @ [task]) = Inr res"
      using Cons.IH [OF _ _ rest] by blast
    then show ?thesis using True pm by (simp add: e)
  next
    case False
    obtain res where "schedule_loop es c acc = Inr res"
      using Cons.IH [OF Cons.prems(1,2) rest] by blast
    then show ?thesis using False pm by (simp add: e)
  qed
qed

lemma schedule_tasks_returns:
  assumes "\<forall>x \<in> set (tasks st). \<forall>y \<in> set (tasks st). comparable x y"
    and "0 \<le> now" and "now \<le> M"
    and "\<forall>e \<in> set (tasks st). 0 \<le> duration (entry_task e)
           \<and> M + duration (entry_task e) * 60000000 \<le> DATETIME_MAX
           \<and> entry_deadline e \<le> M"
  shows "\<exists>scheduled. schedule_tasks now st = (Inr scheduled, st\<lparr>schedule := scheduled\<rparr>)"
proof -
  have s: "sorted_py (tasks st) = Inr (sort_key entry_key (tasks st))"
    using assms(1) by (rule sorted_py_no_ties)
  have "\<forall>e \<in> set (sort_key entry_key (tasks st)). 0 \<le> duration (entry_task e)
           \<and> M + duration (entry_task e) * 60000000 \<le> DATETIME_MAX
           \<and> entry_deadline e \<le> M"
    using assms(4) by simp
  from schedule_loop_returns [OF assms(2,3) this]
  obtain res where "schedule_loop (sort_key entry_key (tasks st)) now [] = Inr res" by blast
  then show ?thesis by (simp add: schedule_tasks_def s)
qed

text \<open>
  A duration that takes the clock past the last \<^verbatim>\<open>datetime\<close> raises
  \<^verbatim>\<open>OverflowError\<close>, here at a current time in the year 2025.
\<close>

lemma schedule_tasks_overflow:
  "fst (schedule_tasks 63900000000000000 (init\<lparr>tasks := [(1, 3600000000, ex_long)]\<rparr>))
     = Inl OverflowError"
  by (simp add: schedule_tasks_def sorted_py_def datetime_defs example_defs)

subsection \<open>Density analysis\<close>

lemma plus_hours_error: "plus_hours d h = Inl e \<Longrightarrow> e = OverflowError"
  by (auto simp: plus_hours_def timedelta_hours_def new_timedelta_def datetime_add_def
      split: sum.splits if_splits)

lemma density_times_error: "density_times first hs = Inl e \<Longrightarrow> e = OverflowError"
  by (induction hs arbitrary: e) (auto split: sum.splits dest: plus_hours_error)

lemma density_times_fails:
  "h \<in> set hs \<Longrightarrow> plus_hours first h = Inl e \<Longrightarrow> density_times first hs = Inl OverflowError"
proof (induction hs)
  case Nil
  then show ?case by simp
next
  case (Cons i rest)
  show ?case
  proof (cases "plus_hours first i")
    case (Inl e')
    then show ?thesis using plus_hours_error [OF Inl] by simp
  next
    case (Inr time)
    then have "h \<noteq> i" using Cons.prems(2) by auto
    then have "density_times first rest = Inl OverflowError"
      using Cons by simp
    then show ?thesis using Inr by simp
  qed
qed

lemma exponent_max: "double_exponent 315537897599999999 = 38"
  by (simp add: double_exponent_def bit_length.simps)

lemma hours_max: "total_seconds_floordiv_3600 315537897599999999 = 87649416"
  by (simp add: total_seconds_floordiv_3600_def exponent_max round_half_even_def Let_def)

lemma bit_length_le: "n < 2 ^ w \<Longrightarrow> bit_length n \<le> w"
proof (induction n arbitrary: w rule: bit_length.induct)
  case (1 n)
  show ?case
  proof (cases "n = 0")
    case True
    then show ?thesis by (simp add: bit_length.simps)
  next
    case False
    then obtain v where w: "w = Suc v" using "1.prems" by (cases w) auto
    then have "n div 2 < 2 ^ v" using "1.prems" by auto
    from "1.IH" [OF False this] show ?thesis
      using False w by (subst bit_length.simps) simp
  qed
qed

lemma bit_length_bounds:
  "0 < n \<Longrightarrow> 2 ^ (bit_length n - 1) \<le> n \<and> n < 2 ^ bit_length n"
proof (induction n rule: bit_length.induct)
  case (1 n)
  show ?case
  proof (cases "n div 2 = 0")
    case True
    then have "n = 1" using "1.prems" by auto
    then show ?thesis by (simp add: bit_length.simps)
  next
    case False
    then have IH: "2 ^ (bit_length (n div 2) - 1) \<le> n div 2" "n div 2 < 2 ^ bit_length (n div 2)"
      using "1.IH" "1.prems" by auto
    have pos: "0 < bit_length (n div 2)"
      using False by (subst bit_length.simps) simp
    have b: "bit_length n = Suc (bit_length (n div 2))"
      using "1.prems" by (subst bit_length.simps) simp
    have "2 ^ (bit_length n - 1) = 2 * 2 ^ (bit_length (n div 2) - 1)"
      using pos by (simp add: b flip: power_Suc)
    also have "\<dots> \<le> 2 * (n div 2)" using IH(1) by simp
    also have "\<dots> \<le> n" by simp
    finally have lo: "2 ^ (bit_length n - 1) \<le> n" .
    have "n < 2 * (n div 2) + 2" by presburger
    also have "\<dots> \<le> 2 * 2 ^ bit_length (n div 2)" using IH(2) by simp
    finally show ?thesis using lo by (simp add: b)
  qed
qed

lemma int_power_le: "(2::nat) ^ m \<le> k \<Longrightarrow> (2::int) ^ m \<le> int k"
proof -
  assume "(2::nat) ^ m \<le> k"
  then have "int (2 ^ m) \<le> int k" by (simp only: of_nat_le_iff)
  then show ?thesis by (simp only: of_nat_power of_nat_numeral)
qed

lemma int_power_gt: "k < (2::nat) ^ m \<Longrightarrow> int k + 1 \<le> (2::int) ^ m"
proof -
  assume "k < (2::nat) ^ m"
  then have "int k < int (2 ^ m)" by (simp only: of_nat_less_iff)
  then have "int k < 2 ^ m" by (simp only: of_nat_power of_nat_numeral)
  then show ?thesis by linarith
qed

text \<open>The exponent is the one the text above describes.\<close>

lemma double_exponent_bounds:
  assumes "0 < n"
  shows "(0 \<le> double_exponent n \<longrightarrow>
            2 ^ nat (double_exponent n) * 1000000 \<le> n
          \<and> n < 2 ^ (nat (double_exponent n) + 1) * 1000000)
       \<and> (double_exponent n < 0 \<longrightarrow>
            1000000 \<le> n * 2 ^ nat (- double_exponent n)
          \<and> n * 2 ^ nat (- double_exponent n) < 2 * 1000000)"
proof (cases "1000000 \<le> n")
  case True
  define k where "k = nat (n div 1000000)"
  have k: "0 < k" using True by (simp add: k_def pos_imp_zdiv_pos_iff)
  have e: "double_exponent n = int (bit_length k) - 1"
    using True by (simp add: double_exponent_def k_def)
  from bit_length_bounds [OF k] have b: "2 ^ (bit_length k - 1) \<le> k" "k < 2 ^ bit_length k"
    by simp_all
  have bp: "0 < bit_length k" using k by (subst bit_length.simps) simp
  have ne: "nat (double_exponent n) = bit_length k - 1" using bp by (simp add: e)
  have kn: "int k = n div 1000000" using True by (simp add: k_def)
  have kk: "int k * 1000000 \<le> n" "n < (int k + 1) * 1000000"
    unfolding kn by presburger+
  have "(2::int) ^ (bit_length k - 1) \<le> int k" using b(1) by (rule int_power_le)
  then have lo: "2 ^ (bit_length k - 1) * 1000000 \<le> n" using kk(1) by linarith
  have "int k + 1 \<le> 2 ^ bit_length k" using b(2) by (rule int_power_gt)
  then have "(int k + 1) * 1000000 \<le> 2 ^ bit_length k * 1000000"
    by (intro mult_right_mono) simp_all
  with kk(2) have hi: "n < 2 ^ bit_length k * 1000000" by (rule less_le_trans)
  have ne1: "bit_length k - 1 + 1 = bit_length k" using bp by simp
  have e0: "0 \<le> double_exponent n" using bp by (simp add: e)
  show ?thesis using e0 lo hi unfolding ne ne1 by auto
next
  case False
  define k where "k = nat (999999 div n)"
  have k: "0 < k" using False assms by (simp add: k_def pos_imp_zdiv_pos_iff)
  have e: "double_exponent n = - int (bit_length k)"
    using False by (simp add: double_exponent_def k_def)
  from bit_length_bounds [OF k] have b: "2 ^ (bit_length k - 1) \<le> k" "k < 2 ^ bit_length k"
    by simp_all
  have bp: "0 < bit_length k" using k by (subst bit_length.simps) simp
  have kn: "int k = 999999 div n" using assms by (simp add: k_def pos_imp_zdiv_nonneg_iff)
  have d: "n * (999999 div n) + 999999 mod n = 999999" by simp
  have m: "0 \<le> 999999 mod n" "999999 mod n < n" using assms by simp_all
  have "n * (int k + 1) = n * (999999 div n) + n" by (simp add: kn algebra_simps)
  then have kk: "n * int k \<le> 999999" "999999 < n * (int k + 1)"
    using d m unfolding kn by linarith+
  have i1: "int k + 1 \<le> 2 ^ bit_length k"
    using b(2) by (rule int_power_gt)
  have i2: "(2::int) ^ (bit_length k - 1) \<le> int k"
    using b(1) by (rule int_power_le)
  have "n * (int k + 1) \<le> n * 2 ^ bit_length k"
    using i1 assms by (simp add: mult_left_mono)
  then have lo: "1000000 \<le> n * 2 ^ bit_length k" using kk(2) by linarith
  have "(2::int) ^ bit_length k = 2 * 2 ^ (bit_length k - 1)"
    using bp by (metis Suc_pred' power_Suc)
  then have "n * 2 ^ bit_length k = 2 * (n * 2 ^ (bit_length k - 1))" by simp
  also have "\<dots> \<le> 2 * (n * int k)"
    using i2 assms by (simp add: mult_left_mono)
  also have "\<dots> < 2 * 1000000" using kk(1) by linarith
  finally have hi: "n * 2 ^ bit_length k < 2 * 1000000" .
  have e0: "double_exponent n < 0" using bp by (simp add: e)
  have ne: "nat (- double_exponent n) = bit_length k" by (simp add: e)
  show ?thesis using e0 lo hi unfolding ne by auto
qed

lemma double_exponent_timedelta:
  assumes "0 < n" and "n \<le> TIMEDELTA_MAX"
  shows "double_exponent n \<le> 46"
proof (cases "1000000 \<le> n")
  case True
  have "n div 1000000 < 2 ^ 47" using assms(2) by (simp add: TIMEDELTA_MAX_def)
  then have "nat (n div 1000000) < 2 ^ 47" by simp
  then have "bit_length (nat (n div 1000000)) \<le> 47" by (rule bit_length_le)
  then show ?thesis using True by (simp add: double_exponent_def)
next
  case False
  then show ?thesis by (simp add: double_exponent_def)
qed

lemma round_half_even_div:
  assumes "0 \<le> n" and "1000000 < 2 * P"
  shows "round_half_even (n * P) 1000000 div (3600 * P) = n div 3600000000"
proof -
  define k where "k = n div 3600000000"
  define t where "t = n mod 3600000000"
  define q where "q = (n * P) div 1000000"
  define r where "r = (n * P) mod 1000000"
  define m where "m = round_half_even (n * P) 1000000"
  have P: "0 < P" using assms(2) by simp
  have n: "n = 3600000000 * k + t" and t: "0 \<le> t" "t \<le> 3599999999"
    using pos_mod_bound [of 3600000000 n] by (simp_all add: k_def t_def)
  have X: "n * P = 1000000 * q + r" and r: "0 \<le> r" "r < 1000000"
    by (simp_all add: q_def r_def)
  have "n * P = 3600000000 * (k * P) + t * P"
    by (subst n) (simp add: algebra_simps)
  moreover have "0 \<le> t * P" using t P by simp
  moreover have "t * P \<le> 3599999999 * P"
    using t(2) P by (simp add: mult_right_mono)
  ultimately have lo: "3600000000 * (k * P) \<le> 1000000 * q + r"
    and hi: "1000000 * q + r \<le> 3600000000 * (k * P) + 3599999999 * P"
    using X by linarith+
  have mq: "m = q \<or> (m = q + 1 \<and> 1000000 \<le> 2 * r)"
    by (auto simp: m_def round_half_even_def Let_def q_def r_def)
  have "3600 * (k * P) \<le> m" using lo r mq by linarith
  moreover have "m < 3600 * (k * P) + 3600 * P" using hi r mq assms(2) by linarith
  ultimately have "m div (3600 * P) = k"
    using P by (intro int_div_pos_eq [where r = "m - 3600 * (k * P)"]) (simp_all add: algebra_simps)
  then show ?thesis by (simp add: m_def k_def)
qed

lemma total_seconds_floordiv_3600_exact:
  assumes "0 \<le> td" and "td < 2 ^ 34 * 1000000"
  shows "total_seconds_floordiv_3600 td = td div 3600000000"
proof (cases "td = 0")
  case True
  then show ?thesis by (simp add: total_seconds_floordiv_3600_def)
next
  case False
  then have pos: "0 < td" using assms(1) by simp
  define e where "e = double_exponent td"
  have e: "e \<le> 33"
  proof (cases "1000000 \<le> td")
    case True
    have "td div 1000000 < 2 ^ 34" using assms(2) by simp
    then have "nat (td div 1000000) < 2 ^ 34" by simp
    then have "bit_length (nat (td div 1000000)) \<le> 34" by (rule bit_length_le)
    then show ?thesis using True by (simp add: e_def double_exponent_def)
  next
    case False
    then show ?thesis by (simp add: e_def double_exponent_def)
  qed
  define s where "s = nat (52 - e)"
  have "19 \<le> s" using e by (simp add: s_def)
  then have "(2::int) ^ 19 \<le> 2 ^ s" by (rule power_increasing) simp
  then have P: "1000000 < 2 * (2::int) ^ s" by simp
  have "total_seconds_floordiv_3600 td
        = round_half_even (td * 2 ^ s) 1000000 div (3600 * 2 ^ s)"
    using pos by (simp add: total_seconds_floordiv_3600_def Let_def e_def s_def)
  also have "\<dots> = td div 3600000000"
    using assms(1) P by (rule round_half_even_div)
  finally show ?thesis .
qed

lemma density_times_ok:
  "0 \<le> first \<Longrightarrow> \<forall>h \<in> set hs. 0 \<le> h \<and> first + h * 3600000000 \<le> DATETIME_MAX \<Longrightarrow>
   density_times first hs = Inr (map (\<lambda>h. first + h * 3600000000) hs)"
proof (induction hs)
  case Nil
  then show ?case by simp
next
  case (Cons h hs)
  then have h: "0 \<le> h" "first + h * 3600000000 \<le> DATETIME_MAX" by simp_all
  then have "h * 3600000000 \<le> TIMEDELTA_MAX"
    using Cons.prems(1) by (simp add: DATETIME_MAX_def TIMEDELTA_MAX_def)
  moreover have "TIMEDELTA_MIN \<le> h * 3600000000"
    using h(1) by (simp add: TIMEDELTA_MIN_def)
  ultimately have "plus_hours first h = Inr (first + h * 3600000000)"
    using h Cons.prems(1)
    by (simp add: plus_hours_def timedelta_hours_def new_timedelta_def datetime_add_def
        valid_datetime_def)
  then show ?case using Cons by simp
qed

lemma sorted_hd_Min: "sorted xs \<Longrightarrow> xs \<noteq> [] \<Longrightarrow> hd xs = Min (set xs)"
  by (cases xs) (auto intro!: Min_eqI [symmetric])

lemma sorted_last_Max: "sorted xs \<Longrightarrow> xs \<noteq> [] \<Longrightarrow> last xs = Max (set xs)"
  by (induction xs) (auto intro!: Max_eqI [symmetric] simp: max_def)

lemma count_due_sort: "count_due (list_sort key ds) time = count_due ds time"
proof -
  have "mset (filter (\<lambda>d. d \<le> time) (list_sort key ds)) = mset (filter (\<lambda>d. d \<le> time) ds)"
    by (simp add: list_sort_def)
  then show ?thesis unfolding count_due_def by (rule mset_eq_length)
qed

lemma analyze_task_density_buckets:
  fixes st :: TaskManager
  defines "ds \<equiv> map (\<lambda>e. deadline (entry_task e)) (tasks st)"
  defines "first \<equiv> Min (set ds)" and "latest \<equiv> Max (set ds)"
  defines "buckets \<equiv> map (\<lambda>h. first + h * 3600000000) [0..(latest - first) div 3600000000]"
  assumes ne: "tasks st \<noteq> []"
    and valid: "list_all (\<lambda>e. valid_datetime (deadline (entry_task e))) (tasks st)"
    and span: "latest - first < 2 ^ 34 * 1000000"
  shows "analyze_task_density st = Inr (Some (buckets, map (count_due ds) buckets))"
proof -
  have ds: "map (\<lambda>(_, _, task). deadline task) (tasks st) = ds"
    unfolding ds_def by (rule map_cong) auto
  have dne: "ds \<noteq> []" using ne by (simp add: ds_def)
  define srt where "srt = list_sort (\<lambda>d. d) ds"
  have s: "sorted srt" "set srt = set ds"
    by (simp_all add: srt_def list_sort_def)
  have "length srt = length ds" by (simp add: srt_def list_sort_def)
  then have sne: "srt \<noteq> []" using dne by auto
  have hd: "hd srt = first" and la: "last srt = latest"
    using sorted_hd_Min [OF s(1) sne] sorted_last_Max [OF s(1) sne]
    by (simp_all add: first_def latest_def s(2))
  have fin: "first \<in> set ds" "latest \<in> set ds"
    using dne by (simp_all add: first_def latest_def)
  then have v: "0 \<le> first" "latest \<le> DATETIME_MAX"
    using valid by (auto simp: ds_def list_all_iff valid_datetime_def)
  have le: "first \<le> latest" using dne by (simp add: first_def latest_def)
  have hours: "total_seconds_floordiv_3600 (latest - first) = (latest - first) div 3600000000"
    using le span by (intro total_seconds_floordiv_3600_exact) simp_all
  have "\<forall>h \<in> set [0..(latest - first) div 3600000000].
          0 \<le> h \<and> first + h * 3600000000 \<le> DATETIME_MAX"
  proof
    fix h assume "h \<in> set [0..(latest - first) div 3600000000]"
    then have h: "0 \<le> h" "h \<le> (latest - first) div 3600000000" by simp_all
    have "h * 3600000000 \<le> (latest - first) div 3600000000 * 3600000000"
      using h(2) by simp
    also have "\<dots> \<le> latest - first"
      using mult_div_mod_eq [of 3600000000 "latest - first"]
        pos_mod_sign [of 3600000000 "latest - first"] by simp
    finally show "0 \<le> h \<and> first + h * 3600000000 \<le> DATETIME_MAX"
      using h(1) v(2) by simp
  qed
  with v(1) have "density_times first [0..(latest - first) div 3600000000] = Inr buckets"
    unfolding buckets_def by (rule density_times_ok)
  moreover have "count_due srt = count_due ds"
    by (rule ext) (simp add: srt_def count_due_sort)
  moreover have "analyze_task_density st =
      (case density_times (hd srt) [0..total_seconds_floordiv_3600 (last srt - hd srt)] of
         Inl e \<Rightarrow> Inl e
       | Inr ts \<Rightarrow> Inr (Some (ts, map (count_due srt) ts)))"
    unfolding analyze_task_density_def ds srt_def using dne by (simp add: Let_def)
  ultimately show ?thesis
    by (simp add: hd la hours)
qed

lemma analyze_task_density_empty: "analyze_task_density (st\<lparr>tasks := []\<rparr>) = Inr None"
  by (simp add: analyze_task_density_def)

subsection \<open>The store as a list object\<close>

lemma merge_sort_h_frame:
  "merge_sort_h key a h = (r, h') \<Longrightarrow> length h \<le> length h' \<and> take (length h) h' = h"
  using merge_sort_h_total merge_sort_h_frame_dom by blast

lemma merge_sort_h_refines:
  "a < length h \<Longrightarrow> merge_sort_h key a h = (r, h') \<Longrightarrow>
   r < length h' \<and> h' ! r = merge_sort key (h ! a)"
proof (induction key a h arbitrary: r h' rule: merge_sort_h.induct)
  case (1 key a h)
  note fr = merge_sort_h_frame [OF "1.prems"(2)]
  show ?case
  proof (cases "length (h ! a) \<le> 1")
    case True
    then have "merge_sort_h key a h = (a, h)"
      by (subst merge_sort_h.simps) simp
    moreover have "merge_sort key (h ! a) = h ! a"
      using True by (subst merge_sort.simps) simp
    ultimately show ?thesis using "1.prems" by simp
  next
    case False
    define mid where "mid = length (h ! a) div 2"
    define h1 where "h1 = h @ [take mid (h ! a)]"
    obtain left h2 where c1: "merge_sort_h key (length h) h1 = (left, h2)"
      by (cases "merge_sort_h key (length h) h1")
    define h3 where "h3 = h2 @ [drop mid (h2 ! a)]"
    obtain right h4 where c2: "merge_sort_h key (length h2) h3 = (right, h4)"
      by (cases "merge_sort_h key (length h2) h3")
    have res: "merge_sort_h key a h = merge_h key left right h4"
      using False "1.prems"(1) c1 c2
      by (subst merge_sort_h.simps)
        (simp add: new_list_def mid_def h1_def h3_def Let_def)
    have h': "h' = h4 @ [merge key (h4 ! left) (h4 ! right)]" and r: "r = length h4"
      using "1.prems"(2) res by (simp_all add: merge_h_def new_list_def)
    have f1: "length h1 \<le> length h2" "take (length h1) h2 = h1"
      using merge_sort_h_frame [OF c1] by simp_all
    have f2: "length h3 \<le> length h4" "take (length h3) h4 = h3"
      using merge_sort_h_frame [OF c2] by simp_all
    have a2: "h2 ! a = h ! a"
    proof -
      have "h2 ! a = take (length h1) h2 ! a" using "1.prems"(1) by (simp add: h1_def)
      then show ?thesis using "1.prems"(1) by (simp add: f1(2)) (simp add: h1_def nth_append)
    qed
    have i1: "left < length h2 \<and> h2 ! left = merge_sort key (h1 ! length h)"
      using "1.IH"(1) [of mid "(length h, h1)" "length h" h1 left h2] False "1.prems"(1) c1
      by (simp add: mid_def h1_def new_list_def)
    have i2: "right < length h4 \<and> h4 ! right = merge_sort key (h3 ! length h2)"
      using "1.IH"(2) [of mid "(length h, h1)" "length h" h1 "(left, h2)" left h2
          "(length h2, h3)" "length h2" h3 right h4] False "1.prems"(1) c1 c2
      by (simp add: mid_def h1_def h3_def new_list_def)
    have "h4 ! left = take (length h3) h4 ! left"
      using i1 by (simp add: h3_def)
    then have l4: "h4 ! left = merge_sort key (take mid (h ! a))"
      using i1 by (simp add: f2(2)) (simp add: h3_def h1_def nth_append)
    have r4: "h4 ! right = merge_sort key (drop mid (h ! a))"
      using i2 a2 by (simp add: h3_def)
    have "merge_sort key (h ! a) = merge key (merge_sort key (take mid (h ! a)))
        (merge_sort key (drop mid (h ! a)))"
      using False by (subst merge_sort.simps) (simp add: mid_def Let_def)
    then show ?thesis by (simp add: h' r l4 r4)
  qed
qed

lemma get_upcoming_tasks_h_example: "get_upcoming_tasks_h 0 [tasks ex_store]
  = ([ex_B, ex_A], [tasks ex_store, [(1, 3600000000, ex_A)], [(2, 2700000000, ex_B)],
       [(2, 2700000000, ex_B), (1, 3600000000, ex_A)]])"
  by (simp add: get_upcoming_tasks_h_def merge_sort_h.simps new_list_def merge_h_def
      merge_def merge_loop.simps example_defs)

lemma schedule_tasks_scenario:
  "schedule_tasks 0 ex_store = (Inr [ex_A], ex_store\<lparr>schedule := [ex_A]\<rparr>)"
  by (simp add: schedule_tasks_def sorted_py_def datetime_defs example_defs)

section \<open>The claims\<close>

text \<open>
  C1. Whenever \<open>schedule_tasks\<close> returns a schedule for a store whose entries were made
  by \<open>add_task\<close>, each task of the schedule satisfies: the current time plus the
  durations of the scheduled tasks up to and including it is no later than its deadline.
\<close>

theorem schedule_tasks_feasible:
  assumes "list_all keyed_by_task (tasks st)"
    and "schedule_tasks now st = (Inr scheduled, st')"
    and "i < length scheduled"
  shows "now + sum_list (map duration (take (Suc i) scheduled)) * 60000000
           \<le> deadline (scheduled ! i)"
proof -
  from assms(2) obtain ordered where o: "sorted_py (tasks st) = Inr ordered"
    and l: "schedule_loop ordered now [] = Inr scheduled"
    by (auto simp: schedule_tasks_def split: sum.splits)
  have "set ordered = set (tasks st)" using sorted_py_mset [OF o] by (rule mset_eq_setD)
  then have "list_all keyed_by_task ordered" using assms(1) by (simp add: list_all_iff)
  from schedule_loop_feasible [OF l this] have "feasible now scheduled" by simp
  then show ?thesis using assms(3) by (rule feasible_nth)
qed

theorem schedule_tasks_feasible_witness:
  "list_all keyed_by_task (tasks ex_store)
   \<and> schedule_tasks 0 ex_store = (Inr [ex_A], ex_store\<lparr>schedule := [ex_A]\<rparr>)
   \<and> 0 < length [ex_A]
   \<and> 0 + sum_list (map duration (take (Suc 0) [ex_A])) * 60000000 \<le> deadline ([ex_A] ! 0)"
proof -
  have k: "list_all keyed_by_task (tasks ex_store)"
    by (simp add: example_defs)
  have l: "0 < length [ex_A]" by simp
  show ?thesis
    using k l schedule_tasks_scenario
      schedule_tasks_feasible [OF k schedule_tasks_scenario l]
    by simp
qed

text \<open>
  C2. \<open>schedule_tasks\<close> is claimed to examine the entries in ascending (priority,
  deadline) order with ties broken by insertion order. The code sorts the triples
  themselves: after A, B and C have been added, B and C agree on priority and deadline,
  the sort compares the two task objects, and the call raises \<^verbatim>\<open>TypeError\<close>.
\<close>

theorem schedule_tasks_tie_raises:
  "add_task ex_A init = Inr (init\<lparr>tasks := [(1, 3600000000, ex_A)]\<rparr>)
   \<and> add_task ex_B (init\<lparr>tasks := [(1, 3600000000, ex_A)]\<rparr>)
       = Inr (init\<lparr>tasks := [(1, 3600000000, ex_A), (2, 2700000000, ex_B)]\<rparr>)
   \<and> add_task ex_C (init\<lparr>tasks := [(1, 3600000000, ex_A), (2, 2700000000, ex_B)]\<rparr>)
       = Inr (init\<lparr>tasks := [(1, 3600000000, ex_A), (2, 2700000000, ex_B),
                                 (2, 2700000000, ex_C)]\<rparr>)
   \<and> fst (schedule_tasks 0 (init\<lparr>tasks := [(1, 3600000000, ex_A), (2, 2700000000, ex_B),
                                              (2, 2700000000, ex_C)]\<rparr>))
       = Inl TypeError"
  by (simp add: add_task_def heappush_def siftdown.simps schedule_tasks_def sorted_py_def
      datetime_defs example_defs)

text \<open>
  C3. Every core operation is claimed to complete without raising on stores of well-formed
  tasks. Adding task C to the store that holds only task B, of the same priority and
  deadline, makes \<open>heappush\<close> compare the two task objects: \<open>add_task\<close> raises
  \<^verbatim>\<open>TypeError\<close>.
\<close>

theorem add_task_tie_raises:
  "add_task ex_B init = Inr (init\<lparr>tasks := [(2, 2700000000, ex_B)]\<rparr>)
   \<and> add_task ex_C (init\<lparr>tasks := [(2, 2700000000, ex_B)]\<rparr>) = Inl TypeError"
  by (simp add: add_task_def heappush_def siftdown.simps example_defs)

text \<open>
  C4. \<open>schedule_tasks\<close> leaves the entries of the store (and the archive) as they were,
  and a second call at the same current time, with no change of the store in between,
  has the same outcome as the first.
\<close>

theorem schedule_tasks_frame:
  "tasks (snd (schedule_tasks now st)) = tasks st
   \<and> completed_tasks (snd (schedule_tasks now st)) = completed_tasks st
   \<and> fst (schedule_tasks now (snd (schedule_tasks now st))) = fst (schedule_tasks now st)"
  by (auto simp: schedule_tasks_def split: sum.splits)

text \<open>
  C5. When the store is \<open>pre @ (p, d, task) # post\<close>, the task has the given name and no
  entry of \<open>pre\<close> has it, \<open>mark_task_as_completed\<close> reports success, removes exactly
  that entry, and appends the task to the end of the archive, where it then occurs once
  more than before. When no entry has the name, it reports failure and changes nothing.
\<close>

theorem mark_task_as_completed_first_match:
  "(tasks st = pre @ (p, d, task) # post \<and> name task = task_name
      \<and> (\<forall>e \<in> set pre. name (entry_task e) \<noteq> task_name)
    \<longrightarrow> mark_task_as_completed task_name st
          = (True, st\<lparr>tasks := pre @ post, completed_tasks := completed_tasks st @ [task]\<rparr>)
        \<and> count_list (completed_tasks (snd (mark_task_as_completed task_name st))) task
          = count_list (completed_tasks st) task + 1)
   \<and> ((\<forall>e \<in> set (tasks st). name (entry_task e) \<noteq> other_name)
    \<longrightarrow> mark_task_as_completed other_name st = (False, st))"
proof (intro conjI impI)
  assume h: "tasks st = pre @ (p, d, task) # post \<and> name task = task_name
      \<and> (\<forall>e \<in> set pre. name (entry_task e) \<noteq> task_name)"
  then have f: "find_task task_name (tasks st) 0 = Some (length pre, task)"
    using find_task_first [of pre task_name task p d post 0] by simp
  show m: "mark_task_as_completed task_name st
          = (True, st\<lparr>tasks := pre @ post, completed_tasks := completed_tasks st @ [task]\<rparr>)"
  proof -
    have "mark_task_as_completed task_name st
          = (True, st\<lparr>completed_tasks := completed_tasks st @ [task],
                tasks := take (length pre) (tasks st) @ drop (Suc (length pre)) (tasks st)\<rparr>)"
      unfolding mark_task_as_completed_def f by simp
    moreover have "take (length pre) (tasks st) @ drop (Suc (length pre)) (tasks st) = pre @ post"
      using h by simp
    ultimately show ?thesis by simp
  qed
  show "count_list (completed_tasks (snd (mark_task_as_completed task_name st))) task
          = count_list (completed_tasks st) task + 1"
    by (simp add: m)
next
  assume "\<forall>e \<in> set (tasks st). name (entry_task e) \<noteq> other_name"
  then show "mark_task_as_completed other_name st = (False, st)"
    by (simp add: mark_task_as_completed_def find_task_none)
qed

theorem mark_task_as_completed_first_match_witness:
  "tasks (ex_store\<lparr>tasks := [(2, 2700000000, ex_B), (1, 3600000000, ex_A), (3, 7200000000, ex_A2)]\<rparr>)
     = [(2, 2700000000, ex_B)] @ (1, 3600000000, ex_A) # [(3, 7200000000, ex_A2)]
   \<and> name ex_A = ''A''
   \<and> list_all (\<lambda>e. name (entry_task e) \<noteq> ''A'') [(2, 2700000000, ex_B)]
   \<and> mark_task_as_completed ''A''
        (ex_store\<lparr>tasks := [(2, 2700000000, ex_B), (1, 3600000000, ex_A), (3, 7200000000, ex_A2)]\<rparr>)
      = (True, ex_store\<lparr>tasks := [(2, 2700000000, ex_B), (3, 7200000000, ex_A2)],
                          completed_tasks := [ex_A]\<rparr>)
   \<and> list_all (\<lambda>e. name (entry_task e) \<noteq> ''Z'')
        (tasks (ex_store\<lparr>tasks := [(2, 2700000000, ex_B), (1, 3600000000, ex_A),
                                     (3, 7200000000, ex_A2)]\<rparr>))
   \<and> mark_task_as_completed ''Z''
        (ex_store\<lparr>tasks := [(2, 2700000000, ex_B), (1, 3600000000, ex_A), (3, 7200000000, ex_A2)]\<rparr>)
      = (False, ex_store\<lparr>tasks := [(2, 2700000000, ex_B), (1, 3600000000, ex_A),
                                    (3, 7200000000, ex_A2)]\<rparr>)"
  using mark_task_as_completed_first_match
    [of "ex_store\<lparr>tasks := [(2, 2700000000, ex_B), (1, 3600000000, ex_A), (3, 7200000000, ex_A2)]\<rparr>"
        "[(2, 2700000000, ex_B)]" 1 3600000000 ex_A "[(3, 7200000000, ex_A2)]" "''A''" "''Z''"]
  by (simp add: example_defs)

text \<open>
  C6. For every list and every key function with totally ordered keys, \<open>merge_sort\<close>
  returns a permutation of the list that is sorted by the key, and it is stable: for
  every key value, the elements with that key are in the order they had in the input.
  A merge takes the head of the left list when its key is not greater than that of the
  right head, and a list of at most one element is returned as it is.
\<close>

theorem merge_sort_stable_sort:
  "mset (merge_sort key xs) = mset xs
   \<and> sorted (map key (merge_sort key xs))
   \<and> (\<forall>k. filter (\<lambda>x. key x = k) (merge_sort key xs) = filter (\<lambda>x. key x = k) xs)
   \<and> (key a \<le> key b \<longrightarrow> merge key (a # ls) (b # rs) = a # merge key ls (b # rs))
   \<and> (length ys \<le> 1 \<longrightarrow> merge_sort key ys = ys)"
proof -
  have "length ys \<le> 1 \<longrightarrow> merge_sort key ys = ys"
    by (subst merge_sort.simps) simp
  moreover have "key a \<le> key b \<longrightarrow> merge key (a # ls) (b # rs) = a # merge key ls (b # rs)"
    by (simp add: merge_eq)
  ultimately show ?thesis
    using merge_sort_props [of key xs] by blast
qed

theorem merge_sort_stable_sort_witness:
  "fst (1::int, ''q'') \<le> fst (1::int, ''s'') \<and> length [(2::int, ''p'')] \<le> 1
   \<and> merge fst [(1::int, ''q'')] [(1, ''s''), (2, ''r'')] = (1, ''q'') # merge fst [] [(1, ''s''), (2, ''r'')]
   \<and> merge_sort fst [(2::int, ''p'')] = [(2, ''p'')]
   \<and> sorted (map fst (merge_sort fst [(2::int, ''p''), (1, ''q''), (2, ''r''), (1, ''s'')]))
   \<and> filter (\<lambda>x. fst x = 2) (merge_sort fst [(2::int, ''p''), (1, ''q''), (2, ''r''), (1, ''s'')])
       = [(2, ''p''), (2, ''r'')]"
  using merge_sort_stable_sort [of fst "[(2::int, ''p''), (1, ''q''), (2, ''r''), (1, ''s'')]"
      "(1::int, ''q'')" "(1::int, ''s'')" "[]" "[(2, ''r'')]" "[(2::int, ''p'')]"]
  by simp

text \<open>
  C7. \<open>remind_tasks\<close> does not change the manager. The overdue group holds the tasks of
  the entries whose deadline is before the current time and the pending group those of
  all other entries, so the two groups together are the tasks of the store, each
  occurrence in one group; both groups are sorted by priority, tasks of equal priority
  in store order. When the entries carry the deadlines of their tasks, no task is in
  both groups.
\<close>

theorem remind_tasks_partition:
  assumes "remind_tasks now st = ((overdue, pending), st')"
  shows "st' = st
    \<and> mset overdue = mset (map entry_task (filter (\<lambda>e. entry_deadline e < now) (tasks st)))
    \<and> mset pending = mset (map entry_task (filter (\<lambda>e. \<not> entry_deadline e < now) (tasks st)))
    \<and> mset overdue + mset pending = mset (map entry_task (tasks st))
    \<and> sorted (map priority overdue) \<and> sorted (map priority pending)
    \<and> (\<forall>k. filter (\<lambda>t. priority t = k) overdue
          = filter (\<lambda>t. priority t = k)
              (map entry_task (filter (\<lambda>e. entry_deadline e < now) (tasks st))))
    \<and> (\<forall>k. filter (\<lambda>t. priority t = k) pending
          = filter (\<lambda>t. priority t = k)
              (map entry_task (filter (\<lambda>e. \<not> entry_deadline e < now) (tasks st))))
    \<and> (list_all keyed_by_task (tasks st) \<longrightarrow>
          (\<forall>t \<in> set overdue. deadline t < now) \<and> (\<forall>t \<in> set pending. \<not> deadline t < now)
          \<and> set overdue \<inter> set pending = {})"
proof -
  define od where "od = map entry_task (filter (\<lambda>e. entry_deadline e < now) (tasks st))"
  define pd where "pd = map entry_task (filter (\<lambda>e. \<not> entry_deadline e < now) (tasks st))"
  have r: "overdue = list_sort priority od" "pending = list_sort priority pd" "st' = st"
    using assms by (auto simp: remind_tasks_def remind_loop_eq od_def pd_def)
  have u: "mset od + mset pd = mset (map entry_task (tasks st))"
    unfolding od_def pd_def by (rule mset_partition_map)
  have so: "set overdue = set od" "set pending = set pd"
    using list_sort_props [of priority od] list_sort_props [of priority pd] r
    by (auto dest: mset_eq_setD)
  have k: "list_all keyed_by_task (tasks st) \<longrightarrow>
          (\<forall>t \<in> set overdue. deadline t < now) \<and> (\<forall>t \<in> set pending. \<not> deadline t < now)"
    unfolding so od_def pd_def by (auto simp: list_all_iff)
  then have "list_all keyed_by_task (tasks st) \<longrightarrow> set overdue \<inter> set pending = {}"
    by blast
  with k u r show ?thesis
    using list_sort_props [of priority od] list_sort_props [of priority pd]
    unfolding od_def [symmetric] pd_def [symmetric] by simp
qed

theorem remind_tasks_partition_witness:
  "remind_tasks 3000000000 ex_store = (([ex_B], [ex_A]), ex_store)
   \<and> list_all keyed_by_task (tasks ex_store)
   \<and> list_all (\<lambda>t. deadline t < 3000000000) [ex_B]
   \<and> list_all (\<lambda>t. \<not> deadline t < 3000000000) [ex_A]
   \<and> set [ex_B] \<inter> set [ex_A] = {}
   \<and> mset [ex_B] + mset [ex_A] = mset (map entry_task (tasks ex_store))"
proof -
  have r: "remind_tasks 3000000000 ex_store = (([ex_B], [ex_A]), ex_store)"
    by (simp add: remind_tasks_def list_sort_def example_defs)
  have k: "list_all keyed_by_task (tasks ex_store)"
    by (simp add: example_defs)
  have "(\<forall>t \<in> set [ex_B]. deadline t < 3000000000)
      \<and> (\<forall>t \<in> set [ex_A]. \<not> deadline t < 3000000000)
      \<and> set [ex_B] \<inter> set [ex_A] = {}
      \<and> mset [ex_B] + mset [ex_A] = mset (map entry_task (tasks ex_store))"
    using remind_tasks_partition [OF r] k by blast
  with r k show ?thesis unfolding list_all_iff by blast
qed

text \<open>
  C8. For a store whose entries were made by \<open>add_task\<close>, \<open>get_upcoming_tasks\<close> returns
  exactly the tasks of the store, sorted by deadline, the tasks of equal deadline in
  store order; on the empty store it returns the empty list.
\<close>

theorem get_upcoming_tasks_sorted_stable:
  assumes "list_all keyed_by_task (tasks st)"
  shows "mset (fst (get_upcoming_tasks st)) = mset (map entry_task (tasks st))
    \<and> sorted (map deadline (fst (get_upcoming_tasks st)))
    \<and> (\<forall>d. filter (\<lambda>t. deadline t = d) (fst (get_upcoming_tasks st))
          = filter (\<lambda>t. deadline t = d) (map entry_task (tasks st)))
    \<and> fst (get_upcoming_tasks (st\<lparr>tasks := []\<rparr>)) = []"
proof -
  define srt where "srt = merge_sort entry_deadline (tasks st)"
  have g: "fst (get_upcoming_tasks st) = map entry_task srt"
    by (simp add: get_upcoming_tasks_def srt_def)
  have m: "mset srt = mset (tasks st)" and s: "sorted (map entry_deadline srt)"
    and f: "\<And>d. filter (\<lambda>e. entry_deadline e = d) srt = filter (\<lambda>e. entry_deadline e = d) (tasks st)"
    using merge_sort_props [of entry_deadline "tasks st"] by (simp_all add: srt_def)
  have "set srt = set (tasks st)" using m by (rule mset_eq_setD)
  then have k: "list_all keyed_by_task srt" using assms by (simp add: list_all_iff)
  have "mset (map entry_task srt) = mset (map entry_task (tasks st))"
    using m by (metis mset_map)
  moreover have "sorted (map deadline (map entry_task srt))"
    unfolding keyed_map_deadline [OF k] by (rule s)
  moreover have "\<forall>d. filter (\<lambda>t. deadline t = d) (map entry_task srt)
          = filter (\<lambda>t. deadline t = d) (map entry_task (tasks st))"
    using f by (simp add: keyed_filter_map [OF k] keyed_filter_map [OF assms])
  moreover have "fst (get_upcoming_tasks (st\<lparr>tasks := []\<rparr>)) = []"
    by (simp add: get_upcoming_tasks_def merge_sort.simps)
  ultimately show ?thesis by (simp only: g simp_thms)
qed

theorem get_upcoming_tasks_sorted_stable_witness:
  "list_all keyed_by_task (tasks ex_store)
   \<and> fst (get_upcoming_tasks ex_store) = [ex_B, ex_A]
   \<and> sorted (map deadline (fst (get_upcoming_tasks ex_store)))
   \<and> mset (fst (get_upcoming_tasks ex_store)) = mset (map entry_task (tasks ex_store))"
proof -
  have k: "list_all keyed_by_task (tasks ex_store)"
    by (simp add: example_defs)
  have g: "fst (get_upcoming_tasks ex_store) = [ex_B, ex_A]"
    by (simp add: get_upcoming_tasks_def merge_sort.simps merge_def merge_loop.simps
        example_defs)
  show ?thesis
    using k g get_upcoming_tasks_sorted_stable [OF k] by simp
qed

text \<open>
  C9. The density analysis is claimed to produce, for every non-empty store, the hourly
  buckets from the earliest to the latest deadline with their cumulative counts. The
  number of buckets is computed in floating point: for the two tasks due at the earliest
  and at the latest \<^verbatim>\<open>datetime\<close>, the span of 315537897599.999999 seconds is rounded
  to the double 315537897600.0, which is 87649416 whole hours, one more than the span
  holds. The last bucket is then past the latest \<^verbatim>\<open>datetime\<close>, and the analysis raises
  \<^verbatim>\<open>OverflowError\<close>.
\<close>

theorem analyze_task_density_overflow:
  "add_task ex_first init = Inr (init\<lparr>tasks := [(1, 0, ex_first)]\<rparr>)
   \<and> add_task ex_last (init\<lparr>tasks := [(1, 0, ex_first)]\<rparr>)
       = Inr (init\<lparr>tasks := [(1, 0, ex_first), (2, 315537897599999999, ex_last)]\<rparr>)
   \<and> valid_datetime (deadline ex_first) \<and> valid_datetime (deadline ex_last)
   \<and> analyze_task_density
        (init\<lparr>tasks := [(1, 0, ex_first), (2, 315537897599999999, ex_last)]\<rparr>)
       = Inl OverflowError"
proof -
  have "plus_hours 0 87649416 = Inl OverflowError"
    by (simp add: plus_hours_def timedelta_hours_def datetime_defs)
  moreover have "(87649416::int) \<in> set [0..87649416]" by simp
  ultimately have "density_times 0 [0..87649416] = Inl OverflowError"
    by (rule density_times_fails [rotated])
  then have "analyze_task_density
        (init\<lparr>tasks := [(1, 0, ex_first), (2, 315537897599999999, ex_last)]\<rparr>)
       = Inl OverflowError"
    by (simp add: analyze_task_density_def list_sort_def init_def ex_first_def ex_last_def
        hours_max)
  then show ?thesis
    by (simp add: add_task_def heappush_def siftdown.simps init_def ex_first_def ex_last_def
        valid_datetime_def DATETIME_MAX_def)
qed

text \<open>
  C10. \<open>get_upcoming_tasks\<close> leaves the list of the store as it was, the same entries in
  the same order: with the lists as objects of a heap and \<open>self_tasks\<close> the address of
  the store's list, the call only adds new lists to the heap and changes no list that was
  there; what it returns is what the model without the heap returns, which hands the
  manager back as it received it.
\<close>

theorem get_upcoming_tasks_store_unchanged:
  assumes "self_tasks < length h"
    and "get_upcoming_tasks_h self_tasks h = (upcoming, h')"
  shows "h' ! self_tasks = h ! self_tasks
    \<and> take (length h) h' = h
    \<and> upcoming = fst (get_upcoming_tasks (st\<lparr>tasks := h ! self_tasks\<rparr>))
    \<and> snd (get_upcoming_tasks st) = st"
proof -
  obtain s where m: "merge_sort_h entry_deadline self_tasks h = (s, h')"
    and u: "upcoming = map entry_task (h' ! s)"
    using assms(2) by (auto simp: get_upcoming_tasks_h_def split: prod.splits)
  from merge_sort_h_frame [OF m] have f: "length h \<le> length h'" "take (length h) h' = h"
    by simp_all
  have "h' ! self_tasks = take (length h) h' ! self_tasks"
    using assms(1) by simp
  then have "h' ! self_tasks = h ! self_tasks" by (simp add: f(2))
  moreover have "h' ! s = merge_sort entry_deadline (h ! self_tasks)"
    using merge_sort_h_refines [OF assms(1) m] by simp
  ultimately show ?thesis
    using f u by (simp add: get_upcoming_tasks_def)
qed

theorem get_upcoming_tasks_store_unchanged_witness:
  "0 < length [tasks ex_store]
   \<and> get_upcoming_tasks_h 0 [tasks ex_store]
       = ([ex_B, ex_A], [tasks ex_store, [(1, 3600000000, ex_A)], [(2, 2700000000, ex_B)],
            [(2, 2700000000, ex_B), (1, 3600000000, ex_A)]])
   \<and> [tasks ex_store, [(1, 3600000000, ex_A)], [(2, 2700000000, ex_B)],
        [(2, 2700000000, ex_B), (1, 3600000000, ex_A)]] ! 0 = [tasks ex_store] ! 0
   \<and> [ex_B, ex_A] = fst (get_upcoming_tasks (ex_store\<lparr>tasks := [tasks ex_store] ! 0\<rparr>))"
proof -
  have l: "0 < length [tasks ex_store]" by simp
  show ?thesis
    using l get_upcoming_tasks_h_example
      get_upcoming_tasks_store_unchanged [OF l get_upcoming_tasks_h_example, of ex_store]
    by simp
qed

end
